theory Spec2Isabelle
  imports Complex_Main "HOL-Library.Sublist" "HOL-Library.Word"
begin

section \<open>Python values used by the extractors\<close>

text \<open>
  A Python \<^verbatim>\<open>str\<close> is a sequence of Unicode code points, so a string is a list of
  naturals (one per code point) and not a list of bytes: \<^verbatim>\<open>str.strip\<close>, \<^verbatim>\<open>str.split\<close> and
  the \<^verbatim>\<open>re\<close> module all work code point by code point.  A \<^verbatim>\<open>bytes\<close> value is a list of
  octets.  Page coordinates are Python floats, with the arithmetic of binary64.
\<close>

type_synonym pystr = "nat list"
type_synonym bytes = "8 word list"

text \<open>
  The exceptions PyMuPDF raises (decoding the stream, looking an image up) are kept apart
  from the exceptions the interpreter raises for the code of \<^verbatim>\<open>app.py\<close> itself: a missing
  dictionary key and a division by zero.
\<close>

datatype fitz_error = FileDataError | ValueError | RuntimeError

datatype py_error = Fitz fitz_error | KeyError | ZeroDivisionError

text \<open>
  A Python float is an IEEE 754 binary64 value: \<open>Finite m e\<close> stands for the number
  \<open>m * 2 ^ e\<close>, and the binary64 values among them are those that can be written with
  \<open>\<bar>m\<bar> < 2 ^ 53\<close> and \<open>- 1074 \<le> e \<le> 971\<close>.  The sign of a zero is not kept; no
  operation of the code tells the two zeros apart.
\<close>

datatype pyfloat = Finite int int | PosInf | NegInf | NaN

text \<open>The number of bits by which a magnitude exceeds the 53 bits of a significand.\<close>

function excess_bits :: "int \<Rightarrow> nat" where
  "excess_bits a = (if a < 2 ^ 53 then 0 else Suc (excess_bits (a div 2)))"
  by pat_completeness auto
termination
  by (relation "measure nat") auto

declare excess_bits.simps [simp del]

text \<open>
  Rounding the exact number \<open>M * 2 ^ e\<close> to binary64, to nearest with ties to even: the
  magnitude keeps its 53 leading bits, the bits cut off decide the direction, and a
  magnitude of \<open>2 ^ 1024\<close> or more becomes an infinity.  (The difference of two binary64
  values is a multiple of \<open>2 ^ - 1074\<close>, so it is never rounded in the subnormal range.)
\<close>

definition round_binary64 :: "int \<Rightarrow> int \<Rightarrow> pyfloat" where
  "round_binary64 M e =
     (let a = \<bar>M\<bar>;
          k = excess_bits a;
          q = a div 2 ^ k;
          r = a mod 2 ^ k;
          q' = (if 2 * r > 2 ^ k \<or> (2 * r = 2 ^ k \<and> odd q) then q + 1 else q)
      in if 0 \<le> e + int k \<and> 2 ^ 1024 \<le> q' * 2 ^ nat (e + int k)
         then (if M < 0 then NegInf else PosInf)
         else Finite (sgn M * q') (e + int k))"

text \<open>\<^verbatim>\<open>x - y\<close> on two floats: the exact difference, rounded.\<close>

fun fl_sub :: "pyfloat \<Rightarrow> pyfloat \<Rightarrow> pyfloat" where
  "fl_sub (Finite m1 e1) (Finite m2 e2) =
     (let e = min e1 e2
      in round_binary64 (m1 * 2 ^ nat (e1 - e) - m2 * 2 ^ nat (e2 - e)) e)"
| "fl_sub NaN y = NaN"
| "fl_sub x NaN = NaN"
| "fl_sub PosInf PosInf = NaN"
| "fl_sub NegInf NegInf = NaN"
| "fl_sub PosInf y = PosInf"
| "fl_sub NegInf y = NegInf"
| "fl_sub x PosInf = NegInf"
| "fl_sub x NegInf = PosInf"

text \<open>\<^verbatim>\<open>abs(x)\<close> on a float.\<close>

fun fl_abs :: "pyfloat \<Rightarrow> pyfloat" where
  "fl_abs (Finite m e) = Finite \<bar>m\<bar> e"
| "fl_abs PosInf = PosInf"
| "fl_abs NegInf = PosInf"
| "fl_abs NaN = NaN"

text \<open>
  \<^verbatim>\<open>x < y\<close> on two floats (\<^verbatim>\<open>x > y\<close> is \<open>fl_less y x\<close>): the comparison of the two numbers,
  false when one of them is not a number.  Python compares a float with an int by their
  exact values, so \<^verbatim>\<open>x < 70\<close> is \<open>fl_less x (Finite 70 0)\<close>.
\<close>

fun fl_less :: "pyfloat \<Rightarrow> pyfloat \<Rightarrow> bool" where
  "fl_less (Finite m1 e1) (Finite m2 e2) =
     (let e = min e1 e2 in m1 * 2 ^ nat (e1 - e) < m2 * 2 ^ nat (e2 - e))"
| "fl_less NaN y = False"
| "fl_less x NaN = False"
| "fl_less x NegInf = False"
| "fl_less PosInf y = False"
| "fl_less NegInf y = True"
| "fl_less x PosInf = True"

text \<open>
  \<^verbatim>\<open>str.isspace\<close> for one code point, which is also the class \<^verbatim>\<open>\s\<close> of a \<^verbatim>\<open>str\<close> pattern
  and the set \<^verbatim>\<open>str.strip()\<close> removes: TAB..CR, FS..US, SPACE, NEL, NBSP, OGHAM SPACE MARK,
  EN QUAD..HAIR SPACE, LINE and PARAGRAPH SEPARATOR, NNBSP, MMSP and IDEOGRAPHIC SPACE.
\<close>

definition py_isspace :: "nat \<Rightarrow> bool" where
  "py_isspace c \<longleftrightarrow>
     (9 \<le> c \<and> c \<le> 13) \<or> (28 \<le> c \<and> c \<le> 32) \<or> c = 133 \<or> c = 160 \<or> c = 5760 \<or>
     (8192 \<le> c \<and> c \<le> 8202) \<or> c = 8232 \<or> c = 8233 \<or> c = 8239 \<or> c = 8287 \<or> c = 12288"

text \<open>\<^verbatim>\<open>text.strip()\<close>: the string without its leading and trailing whitespace.\<close>

definition strip :: "pystr \<Rightarrow> pystr" where
  "strip s = rev (dropWhile py_isspace (rev (dropWhile py_isspace s)))"

text \<open>
  \<^verbatim>\<open>re.search(f"^{re.escape(keyword)}", s, re.MULTILINE)\<close> as a truth value.  The keywords
  consist of letters only, so \<^verbatim>\<open>re.escape\<close> leaves them as they are and the pattern is the
  literal keyword after \<^verbatim>\<open>^\<close>.  With \<^verbatim>\<open>re.MULTILINE\<close> the anchor holds at the start of the
  string and right after every LINE FEED (code point 10), and nowhere else.  The flag
  \<open>bol\<close> says whether the current position is such a place.
\<close>

fun search_at_line_start :: "bool \<Rightarrow> pystr \<Rightarrow> pystr \<Rightarrow> bool" where
  "search_at_line_start bol keyword [] = (bol \<and> keyword = [])"
| "search_at_line_start bol keyword (c # cs) =
     ((bol \<and> prefix keyword (c # cs)) \<or> search_at_line_start (c = 10) keyword cs)"

definition re_search_multiline :: "pystr \<Rightarrow> pystr \<Rightarrow> bool" where
  "re_search_multiline keyword s = search_at_line_start True keyword s"

text \<open>
  \<^verbatim>\<open>text.split(keyword)[0]\<close>: what stands before the leftmost occurrence of the keyword,
  the whole text when the keyword does not occur.  (Python raises \<^verbatim>\<open>ValueError\<close> for an
  empty separator; no keyword is empty, see \<open>reference_keywords_nonempty\<close>.)
\<close>

fun split_head :: "pystr \<Rightarrow> pystr \<Rightarrow> pystr" where
  "split_head keyword [] = []"
| "split_head keyword (c # cs) =
     (if prefix keyword (c # cs) then [] else c # split_head keyword cs)"

text \<open>
  The class \<^verbatim>\<open>\d\<close> of a \<^verbatim>\<open>str\<close> pattern is \<^verbatim>\<open>str.isdecimal\<close>: the code points of the Unicode
  category Nd.  The table is the one of Unicode 14.0 (CPython 3.11), as closed ranges.
\<close>

definition decimal_ranges :: "(nat \<times> nat) list" where
  "decimal_ranges =
     [(48, 57), (1632, 1641), (1776, 1785), (1984, 1993), (2406, 2415), (2534, 2543),
      (2662, 2671), (2790, 2799), (2918, 2927), (3046, 3055), (3174, 3183), (3302, 3311),
      (3430, 3439), (3558, 3567), (3664, 3673), (3792, 3801), (3872, 3881), (4160, 4169),
      (4240, 4249), (6112, 6121), (6160, 6169), (6470, 6479), (6608, 6617), (6784, 6793),
      (6800, 6809), (6992, 7001), (7088, 7097), (7232, 7241), (7248, 7257), (42528, 42537),
      (43216, 43225), (43264, 43273), (43472, 43481), (43504, 43513), (43600, 43609),
      (44016, 44025), (65296, 65305), (66720, 66729), (68912, 68921), (69734, 69743),
      (69872, 69881), (69942, 69951), (70096, 70105), (70384, 70393), (70736, 70745),
      (70864, 70873), (71248, 71257), (71360, 71369), (71472, 71481), (71904, 71913),
      (72016, 72025), (72784, 72793), (73040, 73049), (73120, 73129), (92768, 92777),
      (92864, 92873), (93008, 93017), (120782, 120831), (123200, 123209), (123632, 123641),
      (125264, 125273), (130032, 130041)]"

definition py_isdecimal :: "nat \<Rightarrow> bool" where
  "py_isdecimal c = list_ex (\<lambda>(lo, hi). lo \<le> c \<and> c \<le> hi) decimal_ranges"

text \<open>
  The pattern of line 100, \<^verbatim>\<open>Figure\s*\d+|Fig\.\s*\d+\<close> under \<^verbatim>\<open>re.IGNORECASE\<close>.  A cased
  letter of the pattern matches the code points with the same lower case, and the ones the
  regular expression compiler adds for it: F, G, U, R and E match their two cases, I also
  matches U+0130 and U+0131.  The escaped full stop matches itself only.  Each word is
  the list of the sets its positions accept.
\<close>

definition figure_word :: "nat list list" where
  "figure_word = [[70, 102], [73, 105, 304, 305], [71, 103], [85, 117], [82, 114], [69, 101]]"

definition fig_dot_word :: "nat list list" where
  "fig_dot_word = [[70, 102], [73, 105, 304, 305], [71, 103], [46]]"

text \<open>Matching a word at the start of a string; the rest of the string is returned.\<close>

fun match_classes :: "nat list list \<Rightarrow> pystr \<Rightarrow> pystr option" where
  "match_classes [] s = Some s"
| "match_classes (cls # clss) [] = None"
| "match_classes (cls # clss) (c # cs) = (if c \<in> set cls then match_classes clss cs else None)"

text \<open>
  \<^verbatim>\<open>\s*\d+\<close> matches at the start of a string: a decimal digit stands there, or a
  whitespace character after which \<^verbatim>\<open>\s*\d+\<close> matches again.
\<close>

fun spaces_digits :: "pystr \<Rightarrow> bool" where
  "spaces_digits [] = False"
| "spaces_digits (c # cs) = (py_isdecimal c \<or> (py_isspace c \<and> spaces_digits cs))"

definition figure_match_at :: "pystr \<Rightarrow> bool" where
  "figure_match_at s =
     ((case match_classes figure_word s of None \<Rightarrow> False | Some r \<Rightarrow> spaces_digits r) \<or>
      (case match_classes fig_dot_word s of None \<Rightarrow> False | Some r \<Rightarrow> spaces_digits r))"

text \<open>
  \<^verbatim>\<open>re.search(r'Figure\s*\d+|Fig\.\s*\d+', s, re.IGNORECASE)\<close> as a truth value: one of the
  two alternatives matches at some position of the string.
\<close>

fun re_search_figure :: "pystr \<Rightarrow> bool" where
  "re_search_figure [] = False"
| "re_search_figure (c # cs) = (figure_match_at (c # cs) \<or> re_search_figure cs)"

section \<open>The decoded document\<close>

text \<open>
  \<^verbatim>\<open>fitz.Rect\<close>; a text block of \<^verbatim>\<open>page.get_text("blocks")\<close>, the tuple
  \<^verbatim>\<open>(x0, y0, x1, y1, text, block_no, block_type)\<close> with one field per index; an entry of
  \<^verbatim>\<open>page.get_images(full=True)\<close>, of which the code reads index 0, the cross-reference
  number, and which PyMuPDF identifies on the page by its name.
\<close>

record rect =
  x0 :: pyfloat
  y0 :: pyfloat
  x1 :: pyfloat
  y1 :: pyfloat

record text_block =
  tb0 :: pyfloat
  tb1 :: pyfloat
  tb2 :: pyfloat
  tb3 :: pyfloat
  tb4 :: pystr
  tb5 :: nat
  tb6 :: nat

record img_info =
  xref :: nat
  img_name :: pystr

text \<open>
  A page answers \<^verbatim>\<open>get_text()\<close>, \<^verbatim>\<open>get_text("blocks")\<close>, \<^verbatim>\<open>get_images(full=True)\<close> and
  \<^verbatim>\<open>get_image_bbox(img_info, transform=False)\<close>; the last one can raise.  The document
  answers \<^verbatim>\<open>extract_image(xref)\<close> with a dictionary, of which the code reads the key
  \<^verbatim>\<open>"image"\<close>: \<open>Inr None\<close> is a dictionary without that key (PyMuPDF returns an empty
  dictionary for an object that is not an image), \<open>Inl e\<close> is the exception it raises.
\<close>

record page =
  get_text :: pystr
  get_text_blocks :: "text_block list"
  get_images :: "img_info list"
  get_image_bbox :: "img_info \<Rightarrow> fitz_error + rect"

record document =
  pages :: "page list"
  extract_image :: "nat \<Rightarrow> fitz_error + bytes option"

section \<open>The text extractor\<close>

text \<open>The keywords of line 64: References, REFERENCES, the Korean heading, Bibliography.\<close>

definition reference_keywords :: "pystr list" where
  "reference_keywords =
     [[82, 101, 102, 101, 114, 101, 110, 99, 101, 115],
      [82, 69, 70, 69, 82, 69, 78, 67, 69, 83],
      [52280, 44256, 47928, 54732],
      [66, 105, 98, 108, 105, 111, 103, 114, 97, 112, 104, 121]]"

text \<open>
  Lines 69 to 73, the loop over the keywords, on the state \<open>(full_text, stop_extraction)\<close>:
  the first keyword found at a line start of the stripped text appends the head of the
  split of the text as it is, sets the flag, and leaves the loop.
\<close>

fun keyword_loop :: "pystr list \<Rightarrow> pystr \<Rightarrow> pystr \<times> bool \<Rightarrow> pystr \<times> bool" where
  "keyword_loop [] text st = st"
| "keyword_loop (keyword # keywords) text (full_text, stop_extraction) =
     (if re_search_multiline keyword (strip text)
      then (full_text @ split_head keyword text, True)
      else keyword_loop keywords text (full_text, stop_extraction))"

text \<open>
  Lines 67 to 77, the body of the loop over the pages.  The \<^verbatim>\<open>continue\<close> of line 75 ends
  the iteration when the keyword loop has just set the flag.
\<close>

definition page_step :: "bool \<Rightarrow> pystr \<times> bool \<Rightarrow> page \<Rightarrow> pystr \<times> bool" where
  "page_step optimize st page =
     (let text = get_text page in
      if optimize \<and> \<not> snd st then
        (let st' = keyword_loop reference_keywords text st in
         if snd st' then st'
         else if \<not> snd st' then (fst st' @ text, snd st') else st')
      else if \<not> snd st then (fst st @ text, snd st) else st)"

text \<open>
  \<^verbatim>\<open>extract_text_from_pdf(pdf_bytes, optimize)\<close>.  The argument \<open>opened\<close> is what
  \<^verbatim>\<open>fitz.open(stream=pdf_bytes, filetype="pdf")\<close> of line 62 gives for the bytes: the
  exception it raises, which leaves the function, or the decoded document.
\<close>

definition extract_text_from_pdf :: "fitz_error + document \<Rightarrow> bool \<Rightarrow> py_error + pystr" where
  "extract_text_from_pdf opened optimize =
     (case opened of
        Inl e \<Rightarrow> Inl (Fitz e)
      | Inr doc \<Rightarrow> Inr (fst (foldl (page_step optimize) ([], False) (pages doc))))"

section \<open>The figure extractor\<close>

text \<open>
  The progress bar of the sidebar is the only thing outside the function that
  \<^verbatim>\<open>extract_key_figures\<close> touches.  It is modelled by the list of what has been sent to it:
  a fraction (line 86 creates the bar at 0, line 105 updates it once a page) or the
  \<^verbatim>\<open>empty()\<close> of line 107.  The pause of line 106 has no effect on any value.
\<close>

datatype ui_event = Progress real | Empty

text \<open>
  \<^verbatim>\<open>a / b\<close> on two Python ints: true division, which raises when the divisor is 0.  The
  quotient is kept exact here; Python rounds it to binary64 before the progress bar gets
  it, and nothing the function returns depends on it.
\<close>

definition py_truediv :: "nat \<Rightarrow> nat \<Rightarrow> py_error + real" where
  "py_truediv a b = (if b = 0 then Inl ZeroDivisionError else Inr (real a / real b))"

text \<open>
  Lines 96 to 99: the loop over the text blocks, for an image whose bounding box ends at
  \<open>bottom\<close> (\<^verbatim>\<open>img_bbox.y1\<close>); \<open>tb1\<close> is \<^verbatim>\<open>tb[1]\<close>, \<open>tb4\<close> is \<^verbatim>\<open>tb[4]\<close>.  The test of line 98
  is \<^verbatim>\<open>tb[1] > img_bbox.y1 and abs(tb[1] - img_bbox.y1) < 70\<close>, on floats.
\<close>

fun caption_loop :: "pyfloat \<Rightarrow> text_block list \<Rightarrow> pystr \<Rightarrow> pystr" where
  "caption_loop bottom [] caption_candidate = caption_candidate"
| "caption_loop bottom (tb # text_blocks) caption_candidate =
     caption_loop bottom text_blocks
       (if fl_less bottom (tb1 tb) \<and> fl_less (fl_abs (fl_sub (tb1 tb) bottom)) (Finite 70 0)
        then caption_candidate @ tb4 tb else caption_candidate)"

text \<open>
  Lines 94 to 104: the loop over the images of a page, on \<open>key_figures\<close>.  Nothing catches
  what \<^verbatim>\<open>get_image_bbox\<close>, \<^verbatim>\<open>extract_image\<close> or the lookup of \<^verbatim>\<open>"image"\<close> raise, so each of
  them ends the loop, and the function, with that exception.
\<close>

fun image_loop ::
  "document \<Rightarrow> page \<Rightarrow> text_block list \<Rightarrow> img_info list \<Rightarrow> bytes list \<Rightarrow> py_error + bytes list"
where
  "image_loop doc page text_blocks [] key_figures = Inr key_figures"
| "image_loop doc page text_blocks (img_info # images) key_figures =
     (case get_image_bbox page img_info of
        Inl e \<Rightarrow> Inl (Fitz e)
      | Inr img_bbox \<Rightarrow>
          (let caption_candidate = caption_loop (y1 img_bbox) text_blocks [] in
           if re_search_figure caption_candidate then
             (case extract_image doc (xref img_info) of
                Inl e \<Rightarrow> Inl (Fitz e)
              | Inr None \<Rightarrow> Inl KeyError
              | Inr (Some image_bytes) \<Rightarrow>
                  image_loop doc page text_blocks images (key_figures @ [image_bytes]))
           else image_loop doc page text_blocks images key_figures))"

text \<open>
  Lines 91 to 106: the loop over \<^verbatim>\<open>enumerate(pages_to_process)\<close>, with the index \<open>i\<close>, on
  \<open>key_figures\<close> and the progress bar.
\<close>

fun page_loop ::
  "document \<Rightarrow> nat \<Rightarrow> nat \<Rightarrow> page list \<Rightarrow> bytes list \<times> ui_event list \<Rightarrow>
     py_error + bytes list \<times> ui_event list"
where
  "page_loop doc total_pages_to_process i [] st = Inr st"
| "page_loop doc total_pages_to_process i (page # rest) (key_figures, ui) =
     (case image_loop doc page (get_text_blocks page) (get_images page) key_figures of
        Inl e \<Rightarrow> Inl e
      | Inr key_figures' \<Rightarrow>
          (case py_truediv (i + 1) total_pages_to_process of
             Inl e \<Rightarrow> Inl e
           | Inr fraction \<Rightarrow>
               page_loop doc total_pages_to_process (i + 1) rest
                 (key_figures', ui @ [Progress fraction])))"

text \<open>Lines 87 to 89; \<^verbatim>\<open>pages_to_process[1:]\<close> drops the first element.\<close>

definition pages_to_process :: "document \<Rightarrow> bool \<Rightarrow> page list" where
  "pages_to_process doc optimize =
     (let pages_to_process = pages doc in
      if optimize \<and> length pages_to_process > 1 then drop 1 pages_to_process
      else pages_to_process)"

text \<open>
  \<^verbatim>\<open>extract_key_figures(pdf_bytes, optimize)\<close>, called when the progress bar has received
  \<open>ui\<close>; \<open>opened\<close> is the outcome of \<^verbatim>\<open>fitz.open\<close> (line 84) as for the text extractor.
\<close>

definition extract_key_figures ::
  "fitz_error + document \<Rightarrow> bool \<Rightarrow> ui_event list \<Rightarrow> py_error + bytes list \<times> ui_event list"
where
  "extract_key_figures opened optimize ui =
     (case opened of
        Inl e \<Rightarrow> Inl (Fitz e)
      | Inr doc \<Rightarrow>
          (let pages_to_process = pages_to_process doc optimize;
               total_pages_to_process = length pages_to_process
           in case page_loop doc total_pages_to_process 0 pages_to_process
                     ([], ui @ [Progress 0]) of
                Inl e \<Rightarrow> Inl e
              | Inr (key_figures, ui') \<Rightarrow> Inr (key_figures, ui' @ [Empty])))"

section \<open>The notions of the specification\<close>

text \<open>
  A keyword anchored at the start of a line of \<open>s\<close>: it is a prefix of what starts at a
  position that is the start of the string or follows a line feed.
\<close>

definition line_anchored :: "pystr \<Rightarrow> pystr \<Rightarrow> bool" where
  "line_anchored keyword s \<longleftrightarrow>
     (\<exists>i\<le>length s. (i = 0 \<or> s ! (i - 1) = 10) \<and> prefix keyword (drop i s))"

text \<open>The heading test of a page text: on the text without its outer whitespace.\<close>

definition heading_at_line_start :: "pystr \<Rightarrow> pystr \<Rightarrow> bool" where
  "heading_at_line_start keyword t \<longleftrightarrow> line_anchored keyword (strip t)"

text \<open>
  \<open>before\<close> is the portion of \<open>t\<close> preceding the first occurrence of the keyword: the
  keyword follows it in \<open>t\<close>, and no occurrence of the keyword starts further left.
\<close>

definition first_occurrence :: "pystr \<Rightarrow> pystr \<Rightarrow> pystr \<Rightarrow> bool" where
  "first_occurrence keyword t before \<longleftrightarrow>
     (\<exists>rest. t = before @ keyword @ rest) \<and>
     (\<forall>before' rest'. t = before' @ keyword @ rest' \<longrightarrow> length before \<le> length before')"

text \<open>
  The caption candidate of an image whose box ends at \<open>bottom\<close>: the texts, in page order,
  of the blocks whose top edge \<^verbatim>\<open>tb.y0\<close> satisfies \<^verbatim>\<open>tb.y0 > image.y1\<close> and
  \<^verbatim>\<open>tb.y0 - image.y1 < 70\<close>, the difference being the one of Python floats.
\<close>

definition caption_candidate_of :: "pyfloat \<Rightarrow> text_block list \<Rightarrow> pystr" where
  "caption_candidate_of bottom text_blocks =
     concat (map tb4
       (filter (\<lambda>tb. fl_less bottom (tb1 tb) \<and> fl_less (fl_sub (tb1 tb) bottom) (Finite 70 0))
          text_blocks))"

text \<open>The image has a box on the page, and its caption candidate matches the pattern.\<close>

definition caption_matches :: "page \<Rightarrow> img_info \<Rightarrow> bool" where
  "caption_matches page img =
     (case get_image_bbox page img of
        Inl e \<Rightarrow> False
      | Inr box \<Rightarrow> re_search_figure (caption_candidate_of (y1 box) (get_text_blocks page)))"

text \<open>\<open>b\<close> is the raw encoded payload of the image, found through its cross reference.\<close>

definition raw_bytes :: "document \<Rightarrow> img_info \<Rightarrow> bytes \<Rightarrow> bool" where
  "raw_bytes doc img b \<longleftrightarrow> extract_image doc (xref img) = Inr (Some b)"

text \<open>
  The enumerations of images with a matching caption on a list of pages: page after page,
  and on a page in the order of its image list, every enumeration counted.
\<close>

definition accepted_on :: "page list \<Rightarrow> img_info list" where
  "accepted_on ps = concat (map (\<lambda>page. filter (caption_matches page) (get_images page)) ps)"

text \<open>
  What the scan needs of an image: its box can be retrieved, and so can its payload when
  its caption matches (the payload of any other image is never asked for).
\<close>

definition readable :: "document \<Rightarrow> page \<Rightarrow> img_info \<Rightarrow> bool" where
  "readable doc page img \<longleftrightarrow>
     (\<exists>box. get_image_bbox page img = Inr box) \<and>
     (caption_matches page img \<longrightarrow> (\<exists>b. raw_bytes doc img b))"

section \<open>Example documents\<close>

text \<open>
  Small documents on which the extractors are run below.  \<open>ascii\<close> writes a string of
  ASCII characters as the list of its code points.
\<close>

definition ascii :: "string \<Rightarrow> pystr" where
  "ascii s = map of_char s"

text \<open>
  \<^verbatim>\<open>Rect(1, 1, -1, -1)\<close>, the box PyMuPDF gives for an image it cannot place on the page.
\<close>

definition unplaced_box :: rect where
  "unplaced_box = \<lparr>x0 = Finite 1 0, y0 = Finite 1 0, x1 = Finite (- 1) 0, y1 = Finite (- 1) 0\<rparr>"

text \<open>A page that has text only.\<close>

definition text_page :: "pystr \<Rightarrow> page" where
  "text_page t =
     \<lparr>get_text = t, get_text_blocks = [], get_images = [],
      get_image_bbox = (\<lambda>img. Inr unplaced_box)\<rparr>"

text \<open>
  A paper of three pages.  The first names the references in the middle of a line; the
  second has the heading in capitals at the start of its second line, and the same word
  earlier in its first line; the third is an appendix.
\<close>

definition paper_doc :: document where
  "paper_doc =
     \<lparr>pages =
        [text_page (ascii ''Title\<newline>See References below.\<newline>''),
         text_page (ascii '' Cf. REFERENCES.\<newline>REFERENCES\<newline>[1] A. Author''),
         text_page (ascii ''Appendix'')],
      extract_image = (\<lambda>x. Inl ValueError)\<rparr>"

definition plain_doc :: document where
  "plain_doc =
     \<lparr>pages = [text_page (ascii ''Hello\<newline>''), text_page (ascii ''World'')],
      extract_image = (\<lambda>x. Inl ValueError)\<rparr>"

definition empty_doc :: document where
  "empty_doc = \<lparr>pages = [], extract_image = (\<lambda>x. Inl ValueError)\<rparr>"

text \<open>
  Text blocks, image entries, boxes and payloads for pages with images, at whole
  coordinates.  The cross references 1 to 3 are images, 4 is an object without image data,
  5 is an image whose data cannot be read, any other is unknown.
\<close>

definition caption_block :: "int \<Rightarrow> string \<Rightarrow> text_block" where
  "caption_block upper s =
     \<lparr>tb0 = Finite 72 0, tb1 = Finite upper 0, tb2 = Finite 540 0, tb3 = Finite (upper + 12) 0,
      tb4 = ascii s, tb5 = 0, tb6 = 0\<rparr>"

definition image_entry :: "nat \<Rightarrow> img_info" where
  "image_entry x = \<lparr>xref = x, img_name = [73, 109, 48 + x]\<rparr>"

definition box_ending_at :: "int \<Rightarrow> rect" where
  "box_ending_at bottom =
     \<lparr>x0 = Finite 72 0, y0 = Finite (bottom - 200) 0, x1 = Finite 540 0, y1 = Finite bottom 0\<rparr>"

definition payload_table :: "nat \<Rightarrow> fitz_error + bytes option" where
  "payload_table x =
     (if x = 1 then Inr (Some [255, 216, 255])
      else if x = 2 then Inr (Some [137, 80, 78, 71])
      else if x = 3 then Inr (Some [71, 73, 70])
      else if x = 4 then Inr None
      else if x = 5 then Inl RuntimeError
      else Inl ValueError)"

text \<open>
  A page with three images.  The first ends at 300 and the block 30 units below it reads
  "Figure 1: Example structure".  The second ends at 240, 90 units above that block.  The
  third ends at 500 and the block 20 units below it reads "Table 1: Data".
\<close>

definition figure_page :: page where
  "figure_page =
     \<lparr>get_text = ascii ''Figure 1: Example structure\<newline>Table 1: Data\<newline>'',
      get_text_blocks =
        [caption_block 330 ''Figure 1: Example structure'', caption_block 520 ''Table 1: Data''],
      get_images = [image_entry 1, image_entry 2, image_entry 3],
      get_image_bbox =
        (\<lambda>img. if xref img = 1 then Inr (box_ending_at 300)
               else if xref img = 2 then Inr (box_ending_at 240)
               else if xref img = 3 then Inr (box_ending_at 500)
               else Inr unplaced_box)\<rparr>"

text \<open>
  A page with one captioned image; a page that lists the same image twice; a page with
  two images above one caption, where the data of the second image cannot be read.
\<close>

definition second_page :: page where
  "second_page =
     \<lparr>get_text = ascii ''FIG. 3 Spectrum\<newline>'',
      get_text_blocks = [caption_block 410 ''FIG. 3 Spectrum''],
      get_images = [image_entry 2],
      get_image_bbox =
        (\<lambda>img. if xref img = 2 then Inr (box_ending_at 400) else Inr unplaced_box)\<rparr>"

definition twice_page :: page where
  "twice_page =
     \<lparr>get_text = ascii ''fig.4\<newline>'',
      get_text_blocks = [caption_block 310 ''fig.4''],
      get_images = [image_entry 1, image_entry 1],
      get_image_bbox =
        (\<lambda>img. if xref img = 1 then Inr (box_ending_at 300) else Inr unplaced_box)\<rparr>"

definition damaged_page :: page where
  "damaged_page =
     \<lparr>get_text = ascii ''Fig. 2 Spectrum\<newline>'',
      get_text_blocks = [caption_block 330 ''Fig. 2 Spectrum''],
      get_images = [image_entry 1, image_entry 5],
      get_image_bbox =
        (\<lambda>img. if xref img = 1 \<or> xref img = 5 then Inr (box_ending_at 300)
               else Inr unplaced_box)\<rparr>"

text \<open>
  A page at the edge of the 70 units.  Its two images end at \<open>2 ^ - 50\<close> and the block
  reading "Figure 1" starts at 70: the exact distance is below 70, the difference of the
  two floats is 70.  The data of the second image cannot be read.
\<close>

definition boundary_page :: page where
  "boundary_page =
     \<lparr>get_text = ascii ''Figure 1\<newline>'',
      get_text_blocks = [caption_block 70 ''Figure 1''],
      get_images = [image_entry 1, image_entry 5],
      get_image_bbox =
        (\<lambda>img. Inr \<lparr>x0 = Finite 72 0, y0 = Finite 0 0, x1 = Finite 540 0,
                       y1 = Finite 1 (- 50)\<rparr>)\<rparr>"

definition figure_doc :: document where
  "figure_doc = \<lparr>pages = [figure_page], extract_image = payload_table\<rparr>"

definition two_page_doc :: document where
  "two_page_doc = \<lparr>pages = [figure_page, second_page], extract_image = payload_table\<rparr>"

definition repeated_doc :: document where
  "repeated_doc = \<lparr>pages = [twice_page, figure_page], extract_image = payload_table\<rparr>"

definition boundary_doc :: document where
  "boundary_doc = \<lparr>pages = [boundary_page], extract_image = payload_table\<rparr>"

definition damaged_doc :: document where
  "damaged_doc = \<lparr>pages = [damaged_page, figure_page], extract_image = payload_table\<rparr>"

section \<open>Properties of the text extractor\<close>

lemma reference_keywords_nonempty: "[] \<notin> set reference_keywords"
  by (simp add: reference_keywords_def)

lemma foldl_page_step_no_optimize:
  "foldl (page_step False) (acc, False) ps = (acc @ concat (map get_text ps), False)"
  by (induction ps arbitrary: acc) (simp_all add: page_step_def)

text \<open>
  Claim C6.  Without \<open>optimize\<close> the text extractor returns the texts of all the pages,
  each one whole, concatenated in the order of the pages.
\<close>

theorem extract_text_no_optimize_is_concat:
  "extract_text_from_pdf (Inr doc) False = Inr (concat (map get_text (pages doc)))"
  by (simp add: extract_text_from_pdf_def foldl_page_step_no_optimize)

lemma search_at_line_start_sublist:
  "search_at_line_start bol keyword s \<Longrightarrow> sublist keyword s"
  by (induction s arbitrary: bol) (auto simp: sublist_Cons_right)

lemma strip_sublist: "sublist (strip t) t"
proof -
  define u where "u = dropWhile py_isspace t"
  have "rev u = takeWhile py_isspace (rev u) @ dropWhile py_isspace (rev u)"
    by simp
  then have "u = rev (dropWhile py_isspace (rev u)) @ rev (takeWhile py_isspace (rev u))"
    by (metis rev_append rev_rev_ident)
  then have u: "u = strip t @ rev (takeWhile py_isspace (rev u))"
    by (simp add: strip_def u_def)
  have "t = takeWhile py_isspace t @ u"
    by (simp add: u_def)
  with u have "t = takeWhile py_isspace t @ strip t @ rev (takeWhile py_isspace (rev u))"
    by simp
  then show ?thesis
    unfolding sublist_def by blast
qed

lemma re_search_multiline_sublist:
  "re_search_multiline keyword (strip text) \<Longrightarrow> sublist keyword text"
  using search_at_line_start_sublist[of True keyword "strip text"] strip_sublist[of "text"]
  unfolding re_search_multiline_def by (meson sublist_order.order_trans)

lemma keyword_loop_no_match:
  "\<forall>kw\<in>set kws. \<not> re_search_multiline kw (strip text) \<Longrightarrow> keyword_loop kws text st = st"
  by (induction kws) (cases st; simp)+

lemma keyword_loop_first_match:
  "\<forall>kw\<in>set earlier. \<not> re_search_multiline kw (strip text) \<Longrightarrow>
   re_search_multiline keyword (strip text) \<Longrightarrow>
   keyword_loop (earlier @ keyword # later) text (full_text, stop) =
     (full_text @ split_head keyword text, True)"
  by (induction earlier) auto

lemma page_step_stopped: "page_step optimize (acc, True) p = (acc, True)"
  by (simp add: page_step_def)

lemma foldl_page_step_stopped: "foldl (page_step optimize) (acc, True) ps = (acc, True)"
  by (induction ps) (simp_all add: page_step_stopped)

lemma split_head_decomp:
  "sublist keyword t \<Longrightarrow> \<exists>rest. t = split_head keyword t @ keyword @ rest"
proof (induction t)
  case Nil
  then show ?case by simp
next
  case (Cons c cs)
  show ?case
  proof (cases "prefix keyword (c # cs)")
    case True
    then show ?thesis by (auto simp: prefix_def)
  next
    case False
    with Cons.prems have "sublist keyword cs" by (simp add: sublist_Cons_right)
    with Cons.IH False show ?thesis by auto
  qed
qed

lemma split_head_leftmost:
  "t = before @ keyword @ rest \<Longrightarrow> length (split_head keyword t) \<le> length before"
proof (induction t arbitrary: before)
  case Nil
  then show ?case by simp
next
  case (Cons c cs)
  show ?case
  proof (cases "prefix keyword (c # cs)")
    case True
    then show ?thesis by simp
  next
    case False
    then have "before \<noteq> []" using Cons.prems by (auto simp: prefix_def)
    then obtain b bs where b: "before = b # bs" by (cases before) auto
    with Cons.prems have "cs = bs @ keyword @ rest" by simp
    from Cons.IH[OF this] False b show ?thesis by simp
  qed
qed

lemma search_at_line_start_iff:
  "search_at_line_start bol keyword s \<longleftrightarrow>
     (bol \<and> prefix keyword s) \<or>
     (\<exists>i. 0 < i \<and> i \<le> length s \<and> s ! (i - 1) = 10 \<and> prefix keyword (drop i s))"
proof (induction s arbitrary: bol)
  case Nil
  then show ?case by auto
next
  case (Cons c cs)
  have "(\<exists>i. 0 < i \<and> i \<le> length (c # cs) \<and> (c # cs) ! (i - 1) = 10 \<and> prefix keyword (drop i (c # cs)))
        \<longleftrightarrow> (c = 10 \<and> prefix keyword cs) \<or>
            (\<exists>j. 0 < j \<and> j \<le> length cs \<and> cs ! (j - 1) = 10 \<and> prefix keyword (drop j cs))"
    (is "?L \<longleftrightarrow> ?A \<or> ?R")
  proof
    assume ?L
    then obtain i where i: "0 < i" "i \<le> length (c # cs)" "(c # cs) ! (i - 1) = 10"
      "prefix keyword (drop i (c # cs))" by blast
    show "?A \<or> ?R"
    proof (cases "i = 1")
      case True
      with i show ?thesis by simp
    next
      case False
      with i obtain j where j: "i = Suc j" "0 < j" by (cases i) auto
      with i have "j \<le> length cs \<and> cs ! (j - 1) = 10 \<and> prefix keyword (drop j cs)"
        by (cases j) auto
      with j show ?thesis by blast
    qed
  next
    assume "?A \<or> ?R"
    then show ?L
    proof
      assume ?A
      then have "0 < (1::nat) \<and> 1 \<le> length (c # cs) \<and> (c # cs) ! (1 - 1) = 10 \<and>
          prefix keyword (drop 1 (c # cs))" by simp
      then show ?L by blast
    next
      assume ?R
      then obtain j where j: "0 < j" "j \<le> length cs" "cs ! (j - 1) = 10"
        "prefix keyword (drop j cs)" by blast
      then have "0 < Suc j \<and> Suc j \<le> length (c # cs) \<and> (c # cs) ! (Suc j - 1) = 10 \<and>
          prefix keyword (drop (Suc j) (c # cs))" by (cases j) auto
      then show ?L by blast
    qed
  qed
  with Cons.IH[of "c = 10"] show ?case by auto
qed

lemma re_search_multiline_iff: "re_search_multiline keyword s \<longleftrightarrow> line_anchored keyword s"
proof -
  have "line_anchored keyword s \<longleftrightarrow> prefix keyword s \<or>
     (\<exists>i. 0 < i \<and> i \<le> length s \<and> s ! (i - 1) = 10 \<and> prefix keyword (drop i s))"
    unfolding line_anchored_def
    by (metis bot_nat_0.not_eq_extremum drop0 le0)
  then show ?thesis
    by (simp add: re_search_multiline_def search_at_line_start_iff)
qed

lemma page_step_no_heading:
  "\<forall>kw\<in>set reference_keywords. \<not> re_search_multiline kw (strip (get_text p)) \<Longrightarrow>
   page_step True (acc, False) p = (acc @ get_text p, False)"
  by (simp add: page_step_def keyword_loop_no_match)

lemma page_step_heading:
  "reference_keywords = earlier @ keyword # later \<Longrightarrow>
   \<forall>kw\<in>set earlier. \<not> re_search_multiline kw (strip (get_text p)) \<Longrightarrow>
   re_search_multiline keyword (strip (get_text p)) \<Longrightarrow>
   page_step True (acc, False) p = (acc @ split_head keyword (get_text p), True)"
  using keyword_loop_first_match[of earlier "get_text p" keyword later acc False]
  by (simp add: page_step_def)

lemma foldl_page_step_no_heading:
  "\<forall>p\<in>set ps. \<forall>kw\<in>set reference_keywords. \<not> re_search_multiline kw (strip (get_text p)) \<Longrightarrow>
   foldl (page_step True) (acc, False) ps = (acc @ concat (map get_text ps), False)"
  by (induction ps arbitrary: acc) (simp_all add: page_step_no_heading)

lemma split_head_first_occurrence:
  "sublist keyword t \<Longrightarrow> first_occurrence keyword t (split_head keyword t)"
  unfolding first_occurrence_def using split_head_decomp split_head_leftmost by blast

text \<open>
  Claim C1.  With \<open>optimize\<close>, let page \<open>n\<close> be the first page on which a keyword stands at
  the start of a line of the stripped text, and \<open>keyword\<close> the first keyword of the list
  that does.  Then the result is the whole text of the pages before \<open>n\<close> followed by the
  portion of the text of page \<open>n\<close>, as it is, that precedes the first occurrence of the
  keyword: nothing more of that page and nothing of the pages after it.
\<close>

theorem extract_text_optimize_truncates:
  assumes n: "n < length (pages doc)"
    and earlier_pages: "\<forall>j<n. \<forall>kw\<in>set reference_keywords.
          \<not> heading_at_line_start kw (get_text (pages doc ! j))"
    and order: "reference_keywords = earlier @ keyword # later"
    and earlier_keywords: "\<forall>kw\<in>set earlier. \<not> heading_at_line_start kw (get_text (pages doc ! n))"
    and found: "heading_at_line_start keyword (get_text (pages doc ! n))"
  shows "\<exists>before. first_occurrence keyword (get_text (pages doc ! n)) before \<and>
           extract_text_from_pdf (Inr doc) True =
             Inr (concat (map get_text (take n (pages doc))) @ before)"
proof -
  let ?ps = "pages doc"
  let ?t = "get_text (?ps ! n)"
  have split: "?ps = take n ?ps @ (?ps ! n) # drop (Suc n) ?ps"
    using n by (simp add: id_take_nth_drop)
  have "\<forall>p\<in>set (take n ?ps). \<forall>kw\<in>set reference_keywords.
          \<not> re_search_multiline kw (strip (get_text p))"
  proof
    fix p assume "p \<in> set (take n ?ps)"
    then obtain j where "j < n" "p = ?ps ! j"
      using n by (auto simp: in_set_conv_nth)
    with earlier_pages show "\<forall>kw\<in>set reference_keywords. \<not> re_search_multiline kw (strip (get_text p))"
      by (simp add: heading_at_line_start_def re_search_multiline_iff)
  qed
  then have before: "foldl (page_step True) ([], False) (take n ?ps) =
      (concat (map get_text (take n ?ps)), False)"
    using foldl_page_step_no_heading[of "take n ?ps" "[]"] by simp
  have here: "page_step True (concat (map get_text (take n ?ps)), False) (?ps ! n) =
      (concat (map get_text (take n ?ps)) @ split_head keyword ?t, True)"
    using order earlier_keywords found
    by (intro page_step_heading) (simp_all add: heading_at_line_start_def re_search_multiline_iff)
  have "foldl (page_step True) ([], False) ?ps =
      foldl (page_step True) ([], False) (take n ?ps @ (?ps ! n) # drop (Suc n) ?ps)"
    using split by simp
  also have "\<dots> = (concat (map get_text (take n ?ps)) @ split_head keyword ?t, True)"
    by (simp add: before here foldl_page_step_stopped)
  finally have result: "extract_text_from_pdf (Inr doc) True =
      Inr (concat (map get_text (take n ?ps)) @ split_head keyword ?t)"
    by (simp add: extract_text_from_pdf_def)
  have "sublist keyword ?t"
    using found by (simp add: heading_at_line_start_def re_search_multiline_iff[symmetric]
        re_search_multiline_sublist)
  then have "first_occurrence keyword ?t (split_head keyword ?t)"
    by (rule split_head_first_occurrence)
  with result show ?thesis by blast
qed

text \<open>
  Claim C5.  When no keyword occurs anywhere in the text of any page, the text extractor
  returns the same string with and without \<open>optimize\<close>.
\<close>

theorem extract_text_optimize_same_without_keywords:
  assumes "\<forall>p\<in>set (pages doc). \<forall>kw\<in>set reference_keywords. \<not> sublist kw (get_text p)"
  shows "extract_text_from_pdf (Inr doc) True = extract_text_from_pdf (Inr doc) False"
proof -
  have "\<forall>p\<in>set (pages doc). \<forall>kw\<in>set reference_keywords.
          \<not> re_search_multiline kw (strip (get_text p))"
    using assms re_search_multiline_sublist by blast
  then show ?thesis
    by (simp add: extract_text_from_pdf_def foldl_page_step_no_heading foldl_page_step_no_optimize)
qed

section \<open>Properties of the figure extractor\<close>

lemma excess_bits_small: "a < 2 ^ 53 \<Longrightarrow> excess_bits a = 0"
  by (simp add: excess_bits.simps)

lemma excess_bits_large: "\<not> a < 2 ^ 53 \<Longrightarrow> excess_bits a = Suc (excess_bits (a div 2))"
  by (subst excess_bits.simps) simp

lemma round_binary64_positive:
  assumes "0 < M"
  shows "fl_abs (round_binary64 M e) = round_binary64 M e"
proof -
  have "0 \<le> M div 2 ^ excess_bits M"
    using assms by (simp add: pos_imp_zdiv_nonneg_iff)
  then have "\<bar>M div 2 ^ excess_bits M\<bar> = M div 2 ^ excess_bits M"
    "\<bar>M div 2 ^ excess_bits M + 1\<bar> = M div 2 ^ excess_bits M + 1"
    by simp_all
  with assms show ?thesis
    by (simp add: round_binary64_def Let_def del: power_numeral)
qed

text \<open>
  When \<open>b < a\<close> the rounded difference \<open>a - b\<close> is not negative, so \<^verbatim>\<open>abs\<close> leaves it as it
  is: under \<^verbatim>\<open>tb[1] > img_bbox.y1\<close> the test of the code is the one without \<^verbatim>\<open>abs\<close>.
\<close>

lemma fl_abs_sub_of_less:
  "fl_less b a \<Longrightarrow> fl_abs (fl_sub a b) = fl_sub a b"
proof (cases a; cases b)
  fix m1 e1 m2 e2
  assume "fl_less b a" and a: "a = Finite m1 e1" and b: "b = Finite m2 e2"
  then have "0 < m1 * 2 ^ nat (e1 - min e1 e2) - m2 * 2 ^ nat (e2 - min e1 e2)"
    by (simp add: Let_def min.commute)
  then show ?thesis
    by (simp add: a b Let_def round_binary64_positive)
qed simp_all

lemma caption_loop_eq:
  "caption_loop bottom tbs acc = acc @ caption_candidate_of bottom tbs"
proof (induction tbs arbitrary: acc)
  case Nil
  then show ?case by (simp add: caption_candidate_of_def)
next
  case (Cons tb tbs)
  have "(fl_less bottom (tb1 tb) \<and> fl_less (fl_abs (fl_sub (tb1 tb) bottom)) (Finite 70 0)) =
        (fl_less bottom (tb1 tb) \<and> fl_less (fl_sub (tb1 tb) bottom) (Finite 70 0))"
    using fl_abs_sub_of_less[of bottom "tb1 tb"] by auto
  with Cons show ?case by (simp add: caption_candidate_of_def del: fl_less.simps)
qed

lemma image_loop_result:
  "image_loop doc page (get_text_blocks page) imgs kf = Inr kf' \<Longrightarrow>
   \<exists>new. kf' = kf @ new \<and> list_all2 (raw_bytes doc) (filter (caption_matches page) imgs) new"
proof (induction imgs arbitrary: kf)
  case Nil
  then show ?case by simp
next
  case (Cons img imgs)
  from Cons.prems obtain box where box: "get_image_bbox page img = Inr box"
    by (cases "get_image_bbox page img") auto
  show ?case
  proof (cases "caption_matches page img")
    case False
    with box Cons.prems have "image_loop doc page (get_text_blocks page) imgs kf = Inr kf'"
      by (simp add: caption_matches_def caption_loop_eq)
    from Cons.IH[OF this] False show ?thesis by simp
  next
    case True
    with box Cons.prems obtain b where b: "extract_image doc (xref img) = Inr (Some b)"
      and rest: "image_loop doc page (get_text_blocks page) imgs (kf @ [b]) = Inr kf'"
      by (auto simp: caption_matches_def caption_loop_eq split: sum.splits option.splits)
    from Cons.IH[OF rest] obtain new where
      "kf' = (kf @ [b]) @ new" "list_all2 (raw_bytes doc) (filter (caption_matches page) imgs) new"
      by blast
    with True b have "kf' = kf @ (b # new) \<and>
        list_all2 (raw_bytes doc) (filter (caption_matches page) (img # imgs)) (b # new)"
      by (simp add: raw_bytes_def)
    then show ?thesis by blast
  qed
qed

lemma image_loop_succeeds_iff:
  "(\<exists>kf'. image_loop doc page (get_text_blocks page) imgs kf = Inr kf') \<longleftrightarrow>
   (\<forall>img\<in>set imgs. readable doc page img)"
proof (induction imgs arbitrary: kf)
  case Nil
  then show ?case by simp
next
  case (Cons img imgs)
  show ?case
  proof (cases "get_image_bbox page img")
    case (Inl e)
    then show ?thesis by (simp add: readable_def)
  next
    case (Inr box)
    show ?thesis
    proof (cases "caption_matches page img")
      case False
      with Inr Cons.IH[of kf] show ?thesis
        by (simp add: readable_def caption_matches_def caption_loop_eq)
    next
      case True
      show ?thesis
      proof (cases "extract_image doc (xref img)")
        case (Inl e)
        with Inr True show ?thesis
          by (simp add: readable_def raw_bytes_def caption_matches_def caption_loop_eq)
      next
        case payload: (Inr r)
        show ?thesis
        proof (cases r)
          case None
          with Inr True payload show ?thesis
            by (simp add: readable_def raw_bytes_def caption_matches_def caption_loop_eq)
        next
          case (Some b)
          with Inr True payload Cons.IH[of "kf @ [b]"] show ?thesis
            by (simp add: readable_def raw_bytes_def caption_matches_def caption_loop_eq)
        qed
      qed
    qed
  qed
qed

lemma image_loop_no_zero_division:
  "image_loop doc page tbs imgs kf \<noteq> Inl ZeroDivisionError"
  by (induction doc page tbs imgs kf rule: image_loop.induct)
     (auto split: sum.splits option.splits simp: Let_def)

lemma page_loop_result:
  "page_loop doc tot i ps (kf, ui) = Inr (kf', ui') \<Longrightarrow>
   \<exists>new. kf' = kf @ new \<and> list_all2 (raw_bytes doc) (accepted_on ps) new"
proof (induction ps arbitrary: i kf ui)
  case Nil
  then show ?case by (simp add: accepted_on_def)
next
  case (Cons page ps)
  from Cons.prems obtain kf1 fraction where
    imgs: "image_loop doc page (get_text_blocks page) (get_images page) kf = Inr kf1"
    and rest: "page_loop doc tot (i + 1) ps (kf1, ui @ [Progress fraction]) = Inr (kf', ui')"
    by (auto split: sum.splits)
  from image_loop_result[OF imgs] obtain new1 where
    new1: "kf1 = kf @ new1"
      "list_all2 (raw_bytes doc) (filter (caption_matches page) (get_images page)) new1"
    by blast
  from Cons.IH[OF rest] obtain new2 where
    new2: "kf' = kf1 @ new2" "list_all2 (raw_bytes doc) (accepted_on ps) new2"
    by blast
  from new1 new2 have "kf' = kf @ (new1 @ new2) \<and>
      list_all2 (raw_bytes doc) (accepted_on (page # ps)) (new1 @ new2)"
    by (simp add: accepted_on_def list_all2_appendI)
  then show ?case by blast
qed

lemma page_loop_succeeds_iff:
  "tot \<noteq> 0 \<Longrightarrow>
   (\<exists>r. page_loop doc tot i ps (kf, ui) = Inr r) \<longleftrightarrow>
   (\<forall>page\<in>set ps. \<forall>img\<in>set (get_images page). readable doc page img)"
proof (induction ps arbitrary: i kf ui)
  case Nil
  then show ?case by simp
next
  case (Cons page ps)
  show ?case
  proof (cases "image_loop doc page (get_text_blocks page) (get_images page) kf")
    case (Inl e)
    then have "\<not> (\<forall>img\<in>set (get_images page). readable doc page img)"
      using image_loop_succeeds_iff[of doc page "get_images page" kf] by simp
    with Inl show ?thesis by auto
  next
    case (Inr kf1)
    then have "\<forall>img\<in>set (get_images page). readable doc page img"
      using image_loop_succeeds_iff[of doc page "get_images page" kf] by auto
    with Inr Cons.prems Cons.IH[OF Cons.prems, of "i + 1" kf1 "ui @ [Progress (real (i + 1) / real tot)]"]
    show ?thesis by (simp add: py_truediv_def)
  qed
qed

lemma page_loop_no_zero_division:
  "ps = [] \<or> tot \<noteq> 0 \<Longrightarrow> page_loop doc tot i ps (kf, ui) \<noteq> Inl ZeroDivisionError"
proof (induction ps arbitrary: i kf ui)
  case Nil
  then show ?case by simp
next
  case (Cons page ps)
  then have tot: "tot \<noteq> 0" by simp
  show ?case
  proof (cases "image_loop doc page (get_text_blocks page) (get_images page) kf")
    case (Inl e)
    with image_loop_no_zero_division[of doc page "get_text_blocks page" "get_images page" kf]
    show ?thesis by auto
  next
    case (Inr kf1)
    with tot Cons.IH[of "i + 1" kf1] show ?thesis by (simp add: py_truediv_def)
  qed
qed

lemma page_loop_ui_independent:
  "map_sum id fst (page_loop doc tot i ps (kf, ui1)) =
   map_sum id fst (page_loop doc tot i ps (kf, ui2))"
proof (induction ps arbitrary: i kf ui1 ui2)
  case Nil
  then show ?case by simp
next
  case (Cons page ps)
  then show ?case by (auto split: sum.splits)
qed

lemma extract_key_figures_result:
  assumes "extract_key_figures (Inr doc) optimize ui = Inr (key_figures, ui')"
  shows "list_all2 (raw_bytes doc) (accepted_on (pages_to_process doc optimize)) key_figures"
proof -
  from assms obtain ui1 where
    "page_loop doc (length (pages_to_process doc optimize)) 0 (pages_to_process doc optimize)
       ([], ui @ [Progress 0]) = Inr (key_figures, ui1)"
    by (auto simp: extract_key_figures_def Let_def split: sum.splits)
  from page_loop_result[OF this] show ?thesis by simp
qed

text \<open>
  Claim C2.  The figures returned are exactly the payloads of the images whose caption
  candidate matches the pattern, one for each such enumeration on a scanned page, in the
  order of the pages and, on a page, of its image list.
\<close>

theorem key_figures_are_the_captioned_images:
  assumes "extract_key_figures (Inr doc) optimize ui = Inr (key_figures, ui')"
  shows "list_all2 (raw_bytes doc) (accepted_on (pages_to_process doc optimize)) key_figures"
  using assms by (rule extract_key_figures_result)

lemma extract_key_figures_succeeds_iff:
  "(\<exists>r. extract_key_figures (Inr doc) optimize ui = Inr r) \<longleftrightarrow>
   (\<forall>page\<in>set (pages_to_process doc optimize). \<forall>img\<in>set (get_images page). readable doc page img)"
proof (cases "pages_to_process doc optimize = []")
  case True
  then show ?thesis by (simp add: extract_key_figures_def)
next
  case False
  then have "length (pages_to_process doc optimize) \<noteq> 0" by simp
  from page_loop_succeeds_iff[OF this, of doc 0 "pages_to_process doc optimize" "[]" "ui @ [Progress 0]"]
  show ?thesis
    by (auto simp: extract_key_figures_def Let_def split: sum.splits)
qed

text \<open>
  Claim C3, as amended.  The figure extractor returns a list of figures exactly when, on
  every scanned page, the box of every image and the payload of every image with a matching
  caption can be retrieved.  Otherwise it ends with an exception and returns no figure.
\<close>

theorem key_figures_fail_on_unreadable_image:
  "(\<exists>r. extract_key_figures (Inr doc) optimize ui = Inr r) \<longleftrightarrow>
   (\<forall>page\<in>set (pages_to_process doc optimize). \<forall>img\<in>set (get_images page). readable doc page img)"
  by (rule extract_key_figures_succeeds_iff)

lemma image_loop_cong_doc:
  "extract_image doc1 = extract_image doc2 \<Longrightarrow>
   image_loop doc1 page tbs imgs kf = image_loop doc2 page tbs imgs kf"
  by (induction imgs arbitrary: kf) (auto split: sum.splits option.splits simp: Let_def)

lemma page_loop_cong_doc:
  "extract_image doc1 = extract_image doc2 \<Longrightarrow>
   page_loop doc1 tot i ps (kf, ui) = page_loop doc2 tot i ps (kf, ui)"
proof (induction ps arbitrary: i kf ui)
  case Nil
  then show ?case by simp
next
  case (Cons page ps)
  from Cons.prems have "image_loop doc1 page (get_text_blocks page) (get_images page) kf =
      image_loop doc2 page (get_text_blocks page) (get_images page) kf"
    by (rule image_loop_cong_doc)
  with Cons show ?case by (simp split: sum.splits)
qed

lemma extract_key_figures_skip_first:
  assumes "1 < length (pages doc)"
  shows "extract_key_figures (Inr doc) True ui =
         extract_key_figures (Inr (doc\<lparr>pages := tl (pages doc)\<rparr>)) False ui"
proof -
  let ?doc' = "doc\<lparr>pages := tl (pages doc)\<rparr>"
  have ps: "pages_to_process doc True = tl (pages doc)"
    using assms by (simp add: pages_to_process_def drop_Suc)
  have ps': "pages_to_process ?doc' False = tl (pages doc)"
    by (simp add: pages_to_process_def)
  have "page_loop doc (length (tl (pages doc))) 0 (tl (pages doc)) ([], ui @ [Progress 0]) =
        page_loop ?doc' (length (tl (pages doc))) 0 (tl (pages doc)) ([], ui @ [Progress 0])"
    by (rule page_loop_cong_doc) simp
  then show ?thesis
    by (simp add: extract_key_figures_def ps ps' del: One_nat_def)
qed

lemma extract_key_figures_single_page:
  "length (pages doc) \<le> 1 \<Longrightarrow>
   extract_key_figures (Inr doc) True ui = extract_key_figures (Inr doc) False ui"
  by (simp add: extract_key_figures_def pages_to_process_def)

lemma list_all2_members:
  "list_all2 R xs ys \<Longrightarrow> y \<in> set ys \<Longrightarrow> \<exists>x\<in>set xs. R x y"
  by (induction rule: list_all2_induct) auto

lemma list_all2_members_left:
  "list_all2 R xs ys \<Longrightarrow> x \<in> set xs \<Longrightarrow> \<exists>y\<in>set ys. R x y"
  by (induction rule: list_all2_induct) auto

lemma accepted_on_set:
  "img \<in> set (accepted_on ps) \<longleftrightarrow>
   (\<exists>page\<in>set ps. img \<in> set (get_images page) \<and> caption_matches page img)"
  by (auto simp: accepted_on_def)

text \<open>
  Claim C4.  With \<open>optimize\<close> on a document of more than one page the scan is the full scan
  of the document without its first page, so every figure returned comes from an image
  of a later page.  On a document of at most one page \<open>optimize\<close> changes nothing, and
  without \<open>optimize\<close> every image with a matching caption on every page, the first one
  included, has its payload in the result.
\<close>

theorem key_figures_first_page_skipped:
  "(1 < length (pages doc) \<longrightarrow>
      extract_key_figures (Inr doc) True ui =
        extract_key_figures (Inr (doc\<lparr>pages := tl (pages doc)\<rparr>)) False ui \<and>
      (\<forall>key_figures ui'. extract_key_figures (Inr doc) True ui = Inr (key_figures, ui') \<longrightarrow>
         (\<forall>b\<in>set key_figures. \<exists>page\<in>set (tl (pages doc)). \<exists>img\<in>set (get_images page).
            caption_matches page img \<and> raw_bytes doc img b))) \<and>
   (length (pages doc) \<le> 1 \<longrightarrow>
      extract_key_figures (Inr doc) True ui = extract_key_figures (Inr doc) False ui) \<and>
   (\<forall>key_figures ui'. extract_key_figures (Inr doc) False ui = Inr (key_figures, ui') \<longrightarrow>
      (\<forall>page\<in>set (pages doc). \<forall>img\<in>set (get_images page). caption_matches page img \<longrightarrow>
         (\<exists>b\<in>set key_figures. raw_bytes doc img b)))"
proof (intro conjI impI allI)
  assume "1 < length (pages doc)"
  then show "extract_key_figures (Inr doc) True ui =
        extract_key_figures (Inr (doc\<lparr>pages := tl (pages doc)\<rparr>)) False ui"
    by (rule extract_key_figures_skip_first)
next
  fix key_figures ui'
  assume len: "1 < length (pages doc)"
    and res: "extract_key_figures (Inr doc) True ui = Inr (key_figures, ui')"
  have ps: "pages_to_process doc True = tl (pages doc)"
    using len by (simp add: pages_to_process_def drop_Suc)
  from extract_key_figures_result[OF res] ps
  have all2: "list_all2 (raw_bytes doc) (accepted_on (tl (pages doc))) key_figures" by simp
  show "\<forall>b\<in>set key_figures. \<exists>page\<in>set (tl (pages doc)). \<exists>img\<in>set (get_images page).
            caption_matches page img \<and> raw_bytes doc img b"
  proof
    fix b assume "b \<in> set key_figures"
    from list_all2_members[OF all2 this]
    obtain img where "img \<in> set (accepted_on (tl (pages doc)))" "raw_bytes doc img b"
      by blast
    then show "\<exists>page\<in>set (tl (pages doc)). \<exists>img\<in>set (get_images page).
            caption_matches page img \<and> raw_bytes doc img b"
      unfolding accepted_on_set by blast
  qed
next
  assume "length (pages doc) \<le> 1"
  then show "extract_key_figures (Inr doc) True ui = extract_key_figures (Inr doc) False ui"
    by (rule extract_key_figures_single_page)
next
  fix key_figures ui'
  assume res: "extract_key_figures (Inr doc) False ui = Inr (key_figures, ui')"
  have ps: "pages_to_process doc False = pages doc"
    by (simp add: pages_to_process_def)
  from extract_key_figures_result[OF res] ps
  have all2: "list_all2 (raw_bytes doc) (accepted_on (pages doc)) key_figures" by simp
  show "\<forall>page\<in>set (pages doc). \<forall>img\<in>set (get_images page). caption_matches page img \<longrightarrow>
         (\<exists>b\<in>set key_figures. raw_bytes doc img b)"
  proof (intro ballI impI)
    fix page img
    assume "page \<in> set (pages doc)" "img \<in> set (get_images page)" "caption_matches page img"
    then have "img \<in> set (accepted_on (pages doc))"
      unfolding accepted_on_set by blast
    from list_all2_members_left[OF all2 this]
    show "\<exists>b\<in>set key_figures. raw_bytes doc img b" .
  qed
qed

lemma list_all2_count:
  assumes "list_all2 R xs ys" and "\<And>x y y'. R x y \<Longrightarrow> R x y' \<Longrightarrow> y = y'"
  shows "length (filter (\<lambda>y. y = b) ys) = length (filter (\<lambda>x. R x b) xs)"
  using assms(1)
proof (induction rule: list_all2_induct)
  case Nil
  then show ?case by simp
next
  case (Cons x xs y ys)
  have "y = b \<longleftrightarrow> R x b"
    using Cons.hyps(1) assms(2) by blast
  with Cons.IH show ?case by simp
qed

text \<open>
  Claim C9.  Nothing is deduplicated: the result has one entry for each enumeration of an
  image with a matching caption on a scanned page, and a payload \<open>b\<close> occurs in it as many
  times as images with that payload are so enumerated.
\<close>

theorem key_figures_not_deduplicated:
  assumes "extract_key_figures (Inr doc) optimize ui = Inr (key_figures, ui')"
  shows "length key_figures = length (accepted_on (pages_to_process doc optimize)) \<and>
         length (filter (\<lambda>k. k = b) key_figures) =
           length (filter (\<lambda>img. raw_bytes doc img b) (accepted_on (pages_to_process doc optimize)))"
proof -
  have all2: "list_all2 (raw_bytes doc) (accepted_on (pages_to_process doc optimize)) key_figures"
    using assms by (rule extract_key_figures_result)
  then have "length key_figures = length (accepted_on (pages_to_process doc optimize))"
    by (simp add: list_all2_lengthD)
  moreover have "length (filter (\<lambda>k. k = b) key_figures) =
      length (filter (\<lambda>img. raw_bytes doc img b) (accepted_on (pages_to_process doc optimize)))"
    using all2 by (rule list_all2_count) (simp add: raw_bytes_def)
  ultimately show ?thesis by simp
qed

text \<open>
  Claim C7.  For a document without pages the text extractor returns the empty string and
  the figure extractor the empty list, whatever \<open>optimize\<close> is; neither raises.
\<close>

theorem zero_pages_give_empty_results:
  assumes "pages doc = []"
  shows "extract_text_from_pdf (Inr doc) optimize = Inr [] \<and>
         extract_key_figures (Inr doc) optimize ui = Inr ([], ui @ [Progress 0, Empty])"
  using assms by (simp add: extract_text_from_pdf_def extract_key_figures_def pages_to_process_def)

text \<open>
  Claim C10.  The division of line 105 never raises: the figure extractor never ends with
  \<^verbatim>\<open>ZeroDivisionError\<close>, since the loop body runs only on a non-empty list of pages, whose
  length is the divisor.
\<close>

theorem key_figures_never_zero_division:
  "extract_key_figures opened optimize ui \<noteq> Inl ZeroDivisionError"
proof (cases opened)
  case (Inl e)
  then show ?thesis by (simp add: extract_key_figures_def)
next
  case (Inr doc)
  have "page_loop doc (length (pages_to_process doc optimize)) 0 (pages_to_process doc optimize)
       ([], ui @ [Progress 0]) \<noteq> Inl ZeroDivisionError"
    by (rule page_loop_no_zero_division) simp
  with Inr show ?thesis
    by (auto simp: extract_key_figures_def Let_def split: sum.splits)
qed

text \<open>
  The outcome of the figure extractor (its figures, or its exception) is the same whatever
  the progress bar had received before the call.
\<close>

lemma key_figures_independent_of_ui:
  "map_sum id fst (extract_key_figures opened optimize ui1) =
   map_sum id fst (extract_key_figures opened optimize ui2)"
proof (cases opened)
  case (Inl e)
  then show ?thesis by (simp add: extract_key_figures_def)
next
  case (Inr doc)
  let ?ps = "pages_to_process doc optimize"
  have "map_sum id fst (page_loop doc (length ?ps) 0 ?ps ([], ui1 @ [Progress 0])) =
        map_sum id fst (page_loop doc (length ?ps) 0 ?ps ([], ui2 @ [Progress 0]))"
    by (rule page_loop_ui_independent)
  with Inr show ?thesis
    by (auto simp: extract_key_figures_def Let_def split: sum.splits)
qed

section \<open>The theorems on the example documents\<close>

lemmas text_example_defs =
  ascii_def unplaced_box_def text_page_def paper_doc_def plain_doc_def empty_doc_def
  reference_keywords_def re_search_multiline_def strip_def py_isspace_def
  extract_text_from_pdf_def page_step_def

lemmas figure_example_defs =
  ascii_def unplaced_box_def caption_block_def image_entry_def box_ending_at_def
  payload_table_def figure_page_def second_page_def twice_page_def damaged_page_def
  boundary_page_def figure_doc_def two_page_doc_def repeated_doc_def damaged_doc_def
  boundary_doc_def empty_doc_def
  extract_key_figures_def pages_to_process_def py_truediv_def
  round_binary64_def excess_bits_small excess_bits_large Let_def
  figure_match_at_def figure_word_def fig_dot_word_def py_isdecimal_def decimal_ranges_def
  py_isspace_def

text \<open>
  Claim C1 on the three-page paper: the heading REFERENCES is found on the second page,
  and the text ends before the first occurrence of that word on the page, which is the
  one inside the first line.
\<close>

theorem extract_text_optimize_truncates_witness:
  "(\<exists>before. first_occurrence [82, 69, 70, 69, 82, 69, 78, 67, 69, 83]
        (get_text (pages paper_doc ! 1)) before \<and>
      extract_text_from_pdf (Inr paper_doc) True =
        Inr (concat (map get_text (take 1 (pages paper_doc))) @ before)) \<and>
   extract_text_from_pdf (Inr paper_doc) True =
     Inr (ascii ''Title\<newline>See References below.\<newline> Cf. '')"
proof -
  have n: "1 < length (pages paper_doc)"
    by (simp add: paper_doc_def)
  have earlier_pages: "\<forall>j<1. \<forall>kw\<in>set reference_keywords.
      \<not> heading_at_line_start kw (get_text (pages paper_doc ! j))"
    by (simp add: heading_at_line_start_def re_search_multiline_iff[symmetric] text_example_defs)
  have order: "reference_keywords =
      [[82, 101, 102, 101, 114, 101, 110, 99, 101, 115]] @
      [82, 69, 70, 69, 82, 69, 78, 67, 69, 83] #
      [[52280, 44256, 47928, 54732], [66, 105, 98, 108, 105, 111, 103, 114, 97, 112, 104, 121]]"
    by (simp add: reference_keywords_def)
  have earlier_keywords: "\<forall>kw\<in>set [[82, 101, 102, 101, 114, 101, 110, 99, 101, 115]].
      \<not> heading_at_line_start kw (get_text (pages paper_doc ! 1))"
    by (simp add: heading_at_line_start_def re_search_multiline_iff[symmetric] text_example_defs)
  have found: "heading_at_line_start [82, 69, 70, 69, 82, 69, 78, 67, 69, 83]
      (get_text (pages paper_doc ! 1))"
    by (simp add: heading_at_line_start_def re_search_multiline_iff[symmetric] text_example_defs)
  have direct: "extract_text_from_pdf (Inr paper_doc) True =
     Inr (ascii ''Title\<newline>See References below.\<newline> Cf. '')"
    by (simp add: text_example_defs)
  from extract_text_optimize_truncates[OF n earlier_pages order earlier_keywords found] direct
  show ?thesis by blast
qed

text \<open>Claim C5 on a document of two pages without any keyword.\<close>

theorem extract_text_optimize_same_without_keywords_witness:
  "extract_text_from_pdf (Inr plain_doc) True = extract_text_from_pdf (Inr plain_doc) False \<and>
   extract_text_from_pdf (Inr plain_doc) True = Inr (ascii ''Hello\<newline>World'')"
proof -
  have "\<forall>p\<in>set (pages plain_doc). \<forall>kw\<in>set reference_keywords. \<not> sublist kw (get_text p)"
    by (simp add: text_example_defs sublist_Cons_right)
  from extract_text_optimize_same_without_keywords[OF this]
  have same: "extract_text_from_pdf (Inr plain_doc) True = extract_text_from_pdf (Inr plain_doc) False" .
  have "extract_text_from_pdf (Inr plain_doc) True = Inr (ascii ''Hello\<newline>World'')"
    by (simp add: text_example_defs)
  with same show ?thesis by simp
qed

text \<open>
  Claim C2 on the page with three images: only the first one, with its caption 30 units
  below, is returned.  On the page at the edge of the 70 units nothing is returned: the
  difference of the floats is 70, and the block is not part of the caption candidate.
\<close>

theorem key_figures_are_the_captioned_images_witness:
  "extract_key_figures (Inr figure_doc) False [] =
     Inr ([[255, 216, 255]], [Progress 0, Progress 1, Empty]) \<and>
   list_all2 (raw_bytes figure_doc) (accepted_on (pages_to_process figure_doc False))
     [[255, 216, 255]] \<and>
   accepted_on (pages_to_process figure_doc False) = [image_entry 1] \<and>
   extract_key_figures (Inr boundary_doc) False [] = Inr ([], [Progress 0, Progress 1, Empty]) \<and>
   list_all2 (raw_bytes boundary_doc) (accepted_on (pages_to_process boundary_doc False)) [] \<and>
   accepted_on (pages_to_process boundary_doc False) = []"
proof -
  have run: "extract_key_figures (Inr figure_doc) False [] =
     Inr ([[255, 216, 255]], [Progress 0, Progress 1, Empty])"
    by (simp add: figure_example_defs)
  have acc: "accepted_on (pages_to_process figure_doc False) = [image_entry 1]"
    by (simp add: accepted_on_def caption_matches_def caption_candidate_of_def figure_example_defs)
  have edge: "extract_key_figures (Inr boundary_doc) False [] =
     Inr ([], [Progress 0, Progress 1, Empty])"
    by (simp add: figure_example_defs)
  have edge_acc: "accepted_on (pages_to_process boundary_doc False) = []"
    by (simp add: accepted_on_def caption_matches_def caption_candidate_of_def figure_example_defs)
  from run acc edge edge_acc key_figures_are_the_captioned_images[OF run]
    key_figures_are_the_captioned_images[OF edge]
  show ?thesis by simp
qed

text \<open>
  Claim C3 as amended, on a document whose images are all readable, on the document with
  a captioned image whose data cannot be read, and on the document where the image whose
  data cannot be read has no caption within the 70 units: its data is never asked for.
\<close>

theorem key_figures_fail_on_unreadable_image_witness:
  "(\<exists>r. extract_key_figures (Inr figure_doc) False [] = Inr r) \<and>
   \<not> (\<exists>r. extract_key_figures (Inr damaged_doc) False [] = Inr r) \<and>
   (\<exists>r. extract_key_figures (Inr boundary_doc) False [] = Inr r)"
proof -
  have "\<forall>page\<in>set (pages_to_process boundary_doc False). \<forall>img\<in>set (get_images page).
      readable boundary_doc page img"
    by (simp add: readable_def raw_bytes_def caption_matches_def caption_candidate_of_def
        figure_example_defs)
  then have edge: "\<exists>r. extract_key_figures (Inr boundary_doc) False [] = Inr r"
    using key_figures_fail_on_unreadable_image[of boundary_doc False "[]"] by blast
  have "\<forall>page\<in>set (pages_to_process figure_doc False). \<forall>img\<in>set (get_images page).
      readable figure_doc page img"
    by (simp add: readable_def raw_bytes_def caption_matches_def caption_candidate_of_def
        figure_example_defs)
  then have ok: "\<exists>r. extract_key_figures (Inr figure_doc) False [] = Inr r"
    using key_figures_fail_on_unreadable_image[of figure_doc False "[]"] by blast
  have "\<not> readable damaged_doc damaged_page (image_entry 5)"
    by (simp add: readable_def raw_bytes_def caption_matches_def caption_candidate_of_def
        figure_example_defs)
  moreover have "damaged_page \<in> set (pages_to_process damaged_doc False)"
    "image_entry 5 \<in> set (get_images damaged_page)"
    by (simp_all add: pages_to_process_def damaged_doc_def damaged_page_def)
  ultimately have "\<not> (\<exists>r. extract_key_figures (Inr damaged_doc) False [] = Inr r)"
    using key_figures_fail_on_unreadable_image[of damaged_doc False "[]"] by blast
  with ok edge show ?thesis by simp
qed

text \<open>
  Claim C3 as it is stated fails.  The first page of the document has two images above
  the caption "Fig. 2 Spectrum": the first is readable, and \<^verbatim>\<open>extract_image\<close> raises for the
  second.  The second page has a readable image with a caption.  The call ends with the
  exception of the library and returns neither of the two readable figures.
\<close>

theorem unreadable_image_aborts_scan_counterexample:
  "caption_matches damaged_page (image_entry 1) \<and>
   raw_bytes damaged_doc (image_entry 1) [255, 216, 255] \<and>
   caption_matches figure_page (image_entry 1) \<and>
   get_image_bbox damaged_page (image_entry 5) = Inr (box_ending_at 300) \<and>
   caption_matches damaged_page (image_entry 5) \<and>
   extract_image damaged_doc (xref (image_entry 5)) = Inl RuntimeError \<and>
   extract_key_figures (Inr damaged_doc) False [] = Inl (Fitz RuntimeError) \<and>
   extract_key_figures (Inr damaged_doc) False [] \<noteq>
     Inr ([[255, 216, 255], [255, 216, 255]], [Progress 0, Progress (1 / 2), Progress 1, Empty])"
  by (simp add: raw_bytes_def caption_matches_def caption_candidate_of_def figure_example_defs)

text \<open>
  Claim C4 on a document of two pages, each with one captioned image, and on a document
  of one page.
\<close>

theorem key_figures_first_page_skipped_witness:
  "extract_key_figures (Inr two_page_doc) True [] =
     extract_key_figures (Inr (two_page_doc\<lparr>pages := tl (pages two_page_doc)\<rparr>)) False [] \<and>
   extract_key_figures (Inr two_page_doc) True [] =
     Inr ([[137, 80, 78, 71]], [Progress 0, Progress 1, Empty]) \<and>
   extract_key_figures (Inr two_page_doc) False [] =
     Inr ([[255, 216, 255], [137, 80, 78, 71]],
          [Progress 0, Progress (1 / 2), Progress 1, Empty]) \<and>
   extract_key_figures (Inr figure_doc) True [] = extract_key_figures (Inr figure_doc) False []"
proof -
  have two: "1 < length (pages two_page_doc)"
    by (simp add: two_page_doc_def)
  have one: "length (pages figure_doc) \<le> 1"
    by (simp add: figure_doc_def)
  have skipped: "extract_key_figures (Inr two_page_doc) True [] =
     extract_key_figures (Inr (two_page_doc\<lparr>pages := tl (pages two_page_doc)\<rparr>)) False []"
    using key_figures_first_page_skipped[of two_page_doc "[]"] two by blast
  have single: "extract_key_figures (Inr figure_doc) True [] =
      extract_key_figures (Inr figure_doc) False []"
    using key_figures_first_page_skipped[of figure_doc "[]"] one by blast
  have "extract_key_figures (Inr two_page_doc) True [] =
     Inr ([[137, 80, 78, 71]], [Progress 0, Progress 1, Empty])"
    by (simp add: figure_example_defs)
  moreover have "extract_key_figures (Inr two_page_doc) False [] =
     Inr ([[255, 216, 255], [137, 80, 78, 71]],
          [Progress 0, Progress (1 / 2), Progress 1, Empty])"
    by (simp add: figure_example_defs)
  ultimately show ?thesis using skipped single by simp
qed

text \<open>
  Claim C9 on a document that enumerates the same image twice on its first page and once
  more on its second page: its payload is returned three times.
\<close>

theorem key_figures_not_deduplicated_witness:
  "extract_key_figures (Inr repeated_doc) False [] =
     Inr ([[255, 216, 255], [255, 216, 255], [255, 216, 255]],
          [Progress 0, Progress (1 / 2), Progress 1, Empty]) \<and>
   accepted_on (pages_to_process repeated_doc False) =
     [image_entry 1, image_entry 1, image_entry 1] \<and>
   length (filter (\<lambda>img. raw_bytes repeated_doc img [255, 216, 255])
     (accepted_on (pages_to_process repeated_doc False))) = 3"
proof -
  have run: "extract_key_figures (Inr repeated_doc) False [] =
     Inr ([[255, 216, 255], [255, 216, 255], [255, 216, 255]],
          [Progress 0, Progress (1 / 2), Progress 1, Empty])"
    by (simp add: figure_example_defs)
  have acc: "accepted_on (pages_to_process repeated_doc False) =
     [image_entry 1, image_entry 1, image_entry 1]"
    by (simp add: accepted_on_def caption_matches_def caption_candidate_of_def figure_example_defs)
  from key_figures_not_deduplicated[OF run, of "[255, 216, 255]"]
  have "length (filter (\<lambda>img. raw_bytes repeated_doc img [255, 216, 255])
     (accepted_on (pages_to_process repeated_doc False))) = 3"
    by simp
  with run acc show ?thesis by simp
qed

text \<open>Claim C7 on the document without pages, for both values of \<open>optimize\<close>.\<close>

theorem zero_pages_give_empty_results_witness:
  "extract_text_from_pdf (Inr empty_doc) True = Inr [] \<and>
   extract_key_figures (Inr empty_doc) True [] = Inr ([], [Progress 0, Empty]) \<and>
   extract_text_from_pdf (Inr empty_doc) False = Inr [] \<and>
   extract_key_figures (Inr empty_doc) False [] = Inr ([], [Progress 0, Empty])"
proof -
  have "pages empty_doc = []"
    by (simp add: empty_doc_def)
  from zero_pages_give_empty_results[OF this, of True "[]"]
    zero_pages_give_empty_results[OF this, of False "[]"]
  show ?thesis by simp
qed

end
